theory Spec2Isabelle
  imports Main "HOL-Library.Sublist"
begin

section \<open>Data model\<close>

text \<open>
  The recorder of \<^verbatim>\<open>Codegen\<close> (the latest revision of the class, with wheel and
  navigation events). JavaScript numbers are modelled as integers: coordinates, wheel
  deltas and step counts are finite, and the rounding of floating point addition is
  not modelled. Strings are character lists; an optional field is an \<open>option\<close>.
\<close>

text \<open>\<^verbatim>\<open>EventModifiers\<close>; an absent flag of the partial record is falsy, hence \<open>False\<close>.\<close>

record modifiers =
  shiftKey :: bool
  ctrlKey :: bool
  altKey :: bool
  metaKey :: bool

text \<open>\<^verbatim>\<open>BasicMouseEventData\<close>.\<close>

record mouse_data =
  ev_x :: int
  ev_y :: int
  handle :: string
  mods :: modifiers

text \<open>\<^verbatim>\<open>BBox\<close>, the clip of a screenshot.\<close>

record bbox =
  box_x :: int
  box_y :: int
  width :: int
  height :: int

text \<open>
  \<^verbatim>\<open>PageScreenshotOptions\<close>: only the presence of \<^verbatim>\<open>clip\<close> is inspected by the
  recorder; the remaining options are kept as the text they serialise to.
\<close>

record screenshot_options =
  clip :: "bbox option"
  other_options :: string

datatype mouse_kind = MouseDown | MouseUp | DblClick | Click

datatype key_kind = KeyDown | KeyUp | KeyPress

datatype which = Start | End

text \<open>
  \<^verbatim>\<open>ConsumedEventData\<close>, the entries of the log. The raw events of \<^verbatim>\<open>EventMap\<close> are
  the same values without \<open>Click\<close>, without \<open>KeyPress\<close> and with no \<^verbatim>\<open>steps\<close> field
  on a mouse move.
\<close>

datatype event =
    Mouse mouse_kind mouse_data
  | MouseMove mouse_data "nat option"
  | Wheel mouse_data int int
  | Keyboard key_kind string modifiers
  | Screenshot string "nat list" string "screenshot_options option"
  | Step which "string option"
  | Comment string
  | Navigation string

fun ev_type :: "event \<Rightarrow> string" where
  "ev_type (Mouse MouseDown d) = ''mousedown''"
| "ev_type (Mouse MouseUp d) = ''mouseup''"
| "ev_type (Mouse DblClick d) = ''dblclick''"
| "ev_type (Mouse Click d) = ''click''"
| "ev_type (MouseMove d st) = ''mousemove''"
| "ev_type (Wheel d dx dy) = ''wheel''"
| "ev_type (Keyboard KeyDown k m) = ''keydown''"
| "ev_type (Keyboard KeyUp k m) = ''keyup''"
| "ev_type (Keyboard KeyPress k m) = ''keypress''"
| "ev_type (Screenshot h b n opts) = ''screenshot''"
| "ev_type (Step w n) = ''step''"
| "ev_type (Comment v) = ''comment''"
| "ev_type (Navigation u) = ''navigation''"

definition EVENTS_TO_CONSUME :: "string list" where
  "EVENTS_TO_CONSUME =
     [''mousedown'', ''mousemove'', ''mouseup'', ''dblclick'', ''wheel'',
      ''keydown'', ''keyup'', ''screenshot'', ''step'', ''comment'', ''navigation'']"

datatype error = RecordingNotInProgress

text \<open>
  The fields of a \<^verbatim>\<open>Codegen\<close> object, with the two pieces of the write cycle that
  \<^verbatim>\<open>attach\<close> closes over: whether the debounce timer is armed, and the text last
  written to the script file.
\<close>

record state =
  title :: string
  events :: "event list"
  recording :: bool
  down :: bool
  steps :: "string list"
  counter :: nat
  write_pending :: bool
  file_text :: string

text \<open>The constructor; \<^verbatim>\<open>ensureFileSync\<close> keeps the content of a file that exists.\<close>

definition new_codegen :: "string \<Rightarrow> string \<Rightarrow> state" where
  "new_codegen t content =
     \<lparr>title = t, events = [], recording = False, down = False, steps = [],
      counter = 0, write_pending = False, file_text = content\<rparr>"

section \<open>Key labels\<close>

fun join :: "string \<Rightarrow> string list \<Rightarrow> string" where
  "join sep [] = []"
| "join sep [a] = a"
| "join sep (a # b # rest) = a @ sep @ join sep (b # rest)"

text \<open>
  \<^verbatim>\<open>getCodegenKey\<close>: the entries are visited in the order alt, ctrl, meta, shift; a flag
  that is set yields its capitalised name, and a name equal to the key is dropped.
\<close>

definition getCodegenKey :: "string \<Rightarrow> modifiers \<Rightarrow> string" where
  "getCodegenKey key m =
     join ''+''
       (filter (\<lambda>val. val \<noteq> [] \<and> val \<noteq> key)
          (map (\<lambda>(name, val). if val then name else [])
             [(''Alt'', altKey m), (''Ctrl'', ctrlKey m), (''Meta'', metaKey m),
              (''Shift'', shiftKey m)])
        @ [key])"

section \<open>The normaliser\<close>

text \<open>\<^verbatim>\<open>this.events[this.events.length - k]?.type\<close>.\<close>

definition type_from_end :: "event list \<Rightarrow> nat \<Rightarrow> string option" where
  "type_from_end evs k =
     (if 1 \<le> k \<and> k \<le> length evs then Some (ev_type (evs ! (length evs - k))) else None)"

text \<open>\<^verbatim>\<open>Array.prototype.pop\<close>: the removed last element (none on an empty array) and the rest.\<close>

definition pop :: "'a list \<Rightarrow> 'a option \<times> 'a list" where
  "pop xs = (if xs = [] then (None, []) else (Some (last xs), butlast xs))"

text \<open>Truthiness of what \<^verbatim>\<open>steps.pop()\<close> returns: \<^verbatim>\<open>undefined\<close> and the empty string are falsy.\<close>

definition truthy :: "string option \<Rightarrow> bool" where
  "truthy v = (case v of None \<Rightarrow> False | Some str \<Rightarrow> str \<noteq> [])"

text \<open>\<^verbatim>\<open>name || "step"\<close>.\<close>

definition name_or_step :: "string option \<Rightarrow> string" where
  "name_or_step n = (case n of None \<Rightarrow> ''step'' | Some v \<Rightarrow> if v = [] then ''step'' else v)"

text \<open>\<^verbatim>\<open>const { steps = 0 } = ...\<close>.\<close>

fun steps_of :: "event \<Rightarrow> nat" where
  "steps_of (MouseMove d (Some k)) = k"
| "steps_of _ = 0"

text \<open>First block of \<^verbatim>\<open>consume\<close>: button tracking; \<open>None\<close> is the \<^verbatim>\<open>return false\<close>.\<close>

definition consume_button :: "state \<Rightarrow> event \<Rightarrow> state option" where
  "consume_button s ev =
     (if ev_type ev = ''mousedown'' then Some (s\<lparr>down := True\<rparr>)
      else if ev_type ev = ''mouseup'' then Some (s\<lparr>down := False\<rparr>)
      else if ev_type ev = ''mousemove'' \<and> \<not> down s then None
      else Some s)"

text \<open>
  Second block: the step stack. The boolean is \<open>False\<close> at the \<^verbatim>\<open>return false\<close>; the
  stack has been popped by then, whatever the popped value.
\<close>

definition consume_steps :: "state \<Rightarrow> event \<Rightarrow> bool \<times> state" where
  "consume_steps s ev =
     (case ev of
        Step Start n \<Rightarrow> (True, s\<lparr>steps := steps s @ [name_or_step n]\<rparr>)
      | Step End n \<Rightarrow>
          (case pop (steps s) of (popped, rest) \<Rightarrow> (truthy popped, s\<lparr>steps := rest\<rparr>))
      | _ \<Rightarrow> (True, s))"

text \<open>
  Third block: merge with the tail of the log, or append. The chain tests the type
  tags as the source does; the \<open>case\<close> expressions inside a branch only read the
  fields of the event and of the last entry, and their default branches are never
  taken, since the tag fixes the constructor.
\<close>

definition consume_merge :: "event list \<Rightarrow> string option \<Rightarrow> string option \<Rightarrow> event \<Rightarrow> event list" where
  "consume_merge evs lst beforeLast ev =
     (if ev_type ev = ''mousemove'' \<and> lst = Some ''mousemove'' then
        (case ev of
           MouseMove d st \<Rightarrow> butlast evs @ [MouseMove d (Some (steps_of (last evs) + 1))]
         | _ \<Rightarrow> evs @ [ev])
      else if ev_type ev = ''mouseup'' \<and> lst = Some ''mousedown'' then
        (case ev of
           Mouse k d \<Rightarrow> butlast evs @ [Mouse Click d]
         | _ \<Rightarrow> evs @ [ev])
      else if ev_type ev = ''keyup'' \<and> lst = Some ''keydown'' \<and>
              (case (ev, last evs) of
                 (Keyboard k key m, Keyboard k0 key0 m0) \<Rightarrow>
                    getCodegenKey key m = getCodegenKey key0 m0
               | _ \<Rightarrow> False) then
        (case ev of
           Keyboard k key m \<Rightarrow> butlast evs @ [Keyboard KeyPress key m]
         | _ \<Rightarrow> evs @ [ev])
      else if ev_type ev = ''dblclick'' \<and> lst = Some ''click'' \<and> beforeLast = Some ''click'' then
        butlast (butlast evs) @ [ev]
      else if ev_type ev = ''wheel'' \<and> lst = Some ''wheel'' then
        (case (ev, last evs) of
           (Wheel d dx dy, Wheel d0 dx0 dy0) \<Rightarrow>
              if ev_x d0 = ev_x d \<and> ev_y d0 = ev_y d
              then butlast evs @ [Wheel d (dx0 + dx) (dy0 + dy)]
              else evs @ [ev]
         | _ \<Rightarrow> evs @ [ev])
      else evs @ [ev])"

text \<open>
  \<^verbatim>\<open>consume\<close>: \<open>last\<close> and \<open>beforeLast\<close> are read first, then the three blocks run in
  order. The result is the returned boolean with the object after the call.
\<close>

definition consume :: "state \<Rightarrow> event \<Rightarrow> bool \<times> state" where
  "consume s ev =
     (let lst = type_from_end (events s) 1;
          beforeLast = type_from_end (events s) 2
      in case consume_button s ev of
           None \<Rightarrow> (False, s)
         | Some s1 \<Rightarrow>
             (case consume_steps s1 ev of
                (False, s2) \<Rightarrow> (False, s2)
              | (True, s2) \<Rightarrow>
                  (True, s2\<lparr>events := consume_merge (events s2) lst beforeLast ev\<rparr>)))"

section \<open>The renderer\<close>

text \<open>Template literals print a number in decimal.\<close>

definition digit :: "nat \<Rightarrow> char" where
  "digit n = ''0123456789'' ! n"

fun show_nat :: "nat \<Rightarrow> string" where
  "show_nat n = (if n < 10 then [digit n] else show_nat (n div 10) @ [digit (n mod 10)])"

declare show_nat.simps [simp del]

definition show_int :: "int \<Rightarrow> string" where
  "show_int i = (if i < 0 then CHR ''-'' # show_nat (nat (- i)) else show_nat (nat i))"

definition quote :: string where
  "quote = [CHR 0x27]"

text \<open>
  The \<^verbatim>\<open>switch\<close> of \<^verbatim>\<open>parse\<close>: the lines of one entry. \<^verbatim>\<open>JSON.stringify\<close> on the
  screenshot options is the parameter \<open>json\<close>.
\<close>

fun render_event :: "(screenshot_options \<Rightarrow> string) \<Rightarrow> event \<Rightarrow> string list" where
  "render_event json (Keyboard KeyDown key m) =
     [''await page.keyboard.down('' @ quote @ getCodegenKey key m @ quote @ '');'']"
| "render_event json (Keyboard KeyUp key m) =
     [''await page.keyboard.up('' @ quote @ getCodegenKey key m @ quote @ '');'']"
| "render_event json (Keyboard KeyPress key m) =
     [''await page.keyboard.press('' @ quote @ getCodegenKey key m @ quote @ '');'']"
| "render_event json (Mouse MouseDown d) =
     [''await page.mouse.move('' @ show_int (ev_x d) @ '', '' @ show_int (ev_y d) @ '');'',
      ''await page.mouse.down();'']"
| "render_event json (MouseMove d st) =
     [''await page.mouse.move('' @ show_int (ev_x d) @ '', '' @ show_int (ev_y d) @
      '', { steps: '' @ show_nat (steps_of (MouseMove d st)) @ '' });'']"
| "render_event json (Mouse MouseUp d) = [''await page.mouse.up();'']"
| "render_event json (Mouse Click d) =
     [''await page.mouse.click('' @ show_int (ev_x d) @ '', '' @ show_int (ev_y d) @ '');'']"
| "render_event json (Mouse DblClick d) =
     [''await page.mouse.dblclick('' @ show_int (ev_x d) @ '', '' @ show_int (ev_y d) @ '');'']"
| "render_event json (Wheel d dx dy) =
     [''await page.mouse.move('' @ show_int (ev_x d) @ '', '' @ show_int (ev_y d) @ '');'',
      ''await page.mouse.wheel('' @ show_int dx @ '', '' @ show_int dy @ '');'']"
| "render_event json (Screenshot h b n opts) =
     [''expect('' @
      (if (case opts of None \<Rightarrow> False | Some o1 \<Rightarrow> clip o1 \<noteq> None) then ''page''
       else ''await page.locator('' @ h @ '')'') @
      '').toHaveScreenshot('' @ quote @ n @ quote @ '', '' @
      (case opts of None \<Rightarrow> [] | Some o1 \<Rightarrow> json o1) @ '');'']"
| "render_event json (Step Start n) =
     [''await test.step('' @ quote @ name_or_step n @ quote @ '', async () => {'']"
| "render_event json (Step End n) = [''});'']"
| "render_event json (Comment v) = [''// '' @ v]"
| "render_event json (Navigation u) =
     [''await page.goto('' @ quote @ u @ quote @ '');'']"

text \<open>The array \<^verbatim>\<open>data\<close> of \<^verbatim>\<open>parse\<close>: the log, then one step end per open step.\<close>

definition parse_data :: "state \<Rightarrow> event list" where
  "parse_data s = events s @ replicate (length (steps s)) (Step End None)"

definition parse :: "(screenshot_options \<Rightarrow> string) \<Rightarrow> state \<Rightarrow> string list" where
  "parse json s = concat (map (render_event json) (parse_data s))"

section \<open>The write cycle\<close>

text \<open>The fixed lines \<^verbatim>\<open>write\<close> puts before the rendered log.\<close>

definition file_header :: "string list" where
  "file_header =
     [''import { test, expect } from '' @ [CHR 0x22] @ ''@playwright/test'' @ [CHR 0x22] @ '';'',
      [],
      ''// This file is readonly and gets written frequently'',
      [],
      ''test('' @ quote @ ''codegen output'' @ quote @ '', async ({ page }, testInfo) => {'',
      [],
      ''// you may need to replace the '' @ [CHR 0x60] @ ''selector'' @ [CHR 0x60] @ '' value'',
      ''const selector = '' @ quote @ ''#canvas'' @ quote @ '';'',
      [],
      []]"

definition file_lines :: "(screenshot_options \<Rightarrow> string) \<Rightarrow> state \<Rightarrow> string list" where
  "file_lines json s = file_header @ parse json s @ [''});'']"

text \<open>
  \<^verbatim>\<open>write\<close>: the file is overwritten with the lines joined by a newline. The call of
  the external formatter that follows is best effort and is not modelled.
\<close>

definition write_file :: "(screenshot_options \<Rightarrow> string) \<Rightarrow> state \<Rightarrow> state" where
  "write_file json s = s\<lparr>file_text := join [CHR 0x0A] (file_lines json s)\<rparr>"

text \<open>
  The listener \<^verbatim>\<open>exec\<close> of \<^verbatim>\<open>attach\<close>: \<^verbatim>\<open>this.consume(ev) && write()\<close>, where
  \<^verbatim>\<open>write\<close> is debounced, so that the call only arms the timer.
\<close>

definition exec :: "state \<Rightarrow> event \<Rightarrow> state" where
  "exec s ev =
     (case consume s ev of
        (True, s1) \<Rightarrow> s1\<lparr>write_pending := True\<rparr>
      | (False, s1) \<Rightarrow> s1)"

text \<open>The debounce timer expires: the trailing call of \<^verbatim>\<open>write\<close> runs, if one is pending.\<close>

definition debounce_fire :: "(screenshot_options \<Rightarrow> string) \<Rightarrow> state \<Rightarrow> state" where
  "debounce_fire json s =
     (if write_pending s then (write_file json s)\<lparr>write_pending := False\<rparr> else s)"

text \<open>\<^verbatim>\<open>emit\<close>: \<^verbatim>\<open>exec\<close> listens to the event types of \<^verbatim>\<open>EVENTS_TO_CONSUME\<close> only.\<close>

definition emit :: "state \<Rightarrow> event \<Rightarrow> state" where
  "emit s ev = (if ev_type ev \<in> set EVENTS_TO_CONSUME then exec s ev else s)"

section \<open>The functions exposed by install\<close>

definition emitCodegenEvent :: "state \<Rightarrow> event \<Rightarrow> state" where
  "emitCodegenEvent s e = (if recording s then emit s e else s)"

definition framenavigated :: "state \<Rightarrow> string \<Rightarrow> state" where
  "framenavigated s url = emit s (Navigation url)"

definition startRecording :: "state \<Rightarrow> state" where
  "startRecording s = s\<lparr>recording := True\<rparr>"

definition stopRecording :: "state \<Rightarrow> state" where
  "stopRecording s = s\<lparr>recording := False\<rparr>"

definition assertRecording :: "state \<Rightarrow> error option" where
  "assertRecording s = (if \<not> recording s then Some RecordingNotInProgress else None)"

text \<open>
  The four calls return the error thrown, if any, with the object after the call. What
  they print to the console is not modelled.
\<close>

definition step :: "state \<Rightarrow> string option \<Rightarrow> error option \<times> state" where
  "step s n =
     (case assertRecording s of
        Some e \<Rightarrow> (Some e, s)
      | None \<Rightarrow> (None, emit s (Step Start n)))"

definition endStep :: "state \<Rightarrow> error option \<times> state" where
  "endStep s =
     (case assertRecording s of
        Some e \<Rightarrow> (Some e, s)
      | None \<Rightarrow> (None, emit s (Step End None)))"

definition toSelector :: string where
  "toSelector = ''selector''"

text \<open>
  \<^verbatim>\<open>captureScreenshot\<close>: the default of \<^verbatim>\<open>name\<close> is evaluated, and the counter
  incremented, before the body runs. \<open>area\<close> is the box the user selects when
  \<open>captureArea\<close> is set and \<open>shot\<close> the bytes the browser returns.
\<close>

definition captureScreenshot ::
  "state \<Rightarrow> string option \<Rightarrow> bool \<Rightarrow> screenshot_options \<Rightarrow> bbox \<Rightarrow> nat list \<Rightarrow> error option \<times> state" where
  "captureScreenshot s n captureArea options area shot =
     (let s1 = (case n of None \<Rightarrow> s\<lparr>counter := counter s + 1\<rparr> | Some v \<Rightarrow> s);
          name = (case n of
                    None \<Rightarrow> title s @ ''-'' @ show_nat (counter s1) @ ''.png''
                  | Some v \<Rightarrow> v)
      in case assertRecording s1 of
           Some e \<Rightarrow> (Some e, s1)
         | None \<Rightarrow>
             (let options1 = (if captureArea then options\<lparr>clip := Some area\<rparr> else options)
              in (None, emit s1 (Screenshot toSelector shot name (Some options1)))))"

definition comment :: "state \<Rightarrow> string \<Rightarrow> error option \<times> state" where
  "comment s v =
     (case assertRecording s of
        Some e \<Rightarrow> (Some e, s)
      | None \<Rightarrow> (None, emit s (Comment v)))"

text \<open>The states a recorder can be in: every change goes through one of the calls above.\<close>

inductive reachable :: "state \<Rightarrow> bool" where
  r_new: "reachable (new_codegen t c)"
| r_event: "reachable s \<Longrightarrow> reachable (emitCodegenEvent s e)"
| r_navigated: "reachable s \<Longrightarrow> reachable (framenavigated s u)"
| r_start: "reachable s \<Longrightarrow> reachable (startRecording s)"
| r_stop: "reachable s \<Longrightarrow> reachable (stopRecording s)"
| r_step: "reachable s \<Longrightarrow> reachable (snd (step s n))"
| r_endStep: "reachable s \<Longrightarrow> reachable (snd (endStep s))"
| r_screenshot: "reachable s \<Longrightarrow> reachable (snd (captureScreenshot s n a opts area shot))"
| r_comment: "reachable s \<Longrightarrow> reachable (snd (comment s v))"
| r_fire: "reachable s \<Longrightarrow> reachable (debounce_fire json s)"

section \<open>Nesting of step blocks\<close>

text \<open>
  The names of the steps left open by a sequence of entries, innermost last; \<open>None\<close>
  when a step end has no open step to close.
\<close>

fun open_steps :: "event list \<Rightarrow> string list \<Rightarrow> string list option" where
  "open_steps [] st = Some st"
| "open_steps (Step Start n # es) st = open_steps es (st @ [name_or_step n])"
| "open_steps (Step End n # es) st = (if st = [] then None else open_steps es (butlast st))"
| "open_steps (e # es) st = open_steps es st"




text \<open>No two neighbouring entries of the log are mouse moves.\<close>

fun no_adjacent_moves :: "event list \<Rightarrow> bool" where
  "no_adjacent_moves (a # b # es) =
     (\<not> (ev_type a = ''mousemove'' \<and> ev_type b = ''mousemove'') \<and> no_adjacent_moves (b # es))"
| "no_adjacent_moves es = True"

text \<open>The listener run on a sequence of events, one after the other, in order.\<close>

fun exec_all :: "state \<Rightarrow> event list \<Rightarrow> state" where
  "exec_all s [] = s"
| "exec_all s (e # es) = exec_all (exec s e) es"

section \<open>Invariants of the log\<close>

text \<open>
  What the third block of \<^verbatim>\<open>consume\<close> can do to the log: append the event, replace
  the last entry by one entry, or replace two clicks by the double click.
\<close>

definition merge_shape :: "event list \<Rightarrow> event \<Rightarrow> event list \<Rightarrow> bool" where
  "merge_shape evs ev res =
     (res = evs @ [ev] \<and>
        (ev_type ev = ''mousemove'' \<longrightarrow> evs = [] \<or> ev_type (last evs) \<noteq> ''mousemove'') \<or>
      (\<exists>es l e. evs = es @ [l] \<and> res = es @ [e] \<and> ev_type l \<noteq> ''step'' \<and> ev_type e \<noteq> ''step'' \<and>
          ev_type ev \<noteq> ''step'' \<and> (ev_type e = ''mousemove'' \<longrightarrow> ev_type l = ''mousemove'')) \<or>
      (\<exists>es a b. evs = es @ [a, b] \<and> res = es @ [ev] \<and> ev_type a = ''click'' \<and> ev_type b = ''click'' \<and>
          ev_type ev = ''dblclick''))"

text \<open>
  The step stack holds the names of the steps the log leaves open, and no name on it
  is empty.
\<close>

definition steps_inv :: "state \<Rightarrow> bool" where
  "steps_inv s = ((\<forall>n \<in> set (steps s). n \<noteq> []) \<and> open_steps (events s) [] = Some (steps s))"

section \<open>Sample values\<close>

text \<open>A recorder that has just been started, and mouse data with no modifier held.\<close>

definition plain :: modifiers where
  "plain = \<lparr>shiftKey = False, ctrlKey = False, altKey = False, metaKey = False\<rparr>"

definition at_point :: "int \<Rightarrow> int \<Rightarrow> mouse_data" where
  "at_point px py = \<lparr>ev_x = px, ev_y = py, handle = ''selector'', mods = plain\<rparr>"

definition started :: state where
  "started = startRecording (new_codegen ''codegen'' [])"

section \<open>Basic facts\<close>

lemmas consume_defs = consume_def consume_button_def consume_steps_def consume_merge_def

lemmas api_defs = emitCodegenEvent_def emit_def exec_def EVENTS_TO_CONSUME_def
  startRecording_def stopRecording_def new_codegen_def started_def

lemma type_from_end_snoc1 [simp]: "type_from_end (es @ [e]) (Suc 0) = Some (ev_type e)"
  by (simp add: type_from_end_def)

lemma type_from_end_Nil [simp]: "type_from_end [] k = None"
  by (simp add: type_from_end_def)

lemma type_from_end_snoc_2:
  "type_from_end (es @ [l]) 2 = (if es = [] then None else Some (ev_type (last es)))"
  by (cases es rule: rev_cases) (simp_all add: type_from_end_def nth_append)

lemma ev_type_Mouse [simp]:
  "ev_type (Mouse k d) = ''mousedown'' \<longleftrightarrow> k = MouseDown"
  "ev_type (Mouse k d) = ''mouseup'' \<longleftrightarrow> k = MouseUp"
  "ev_type (Mouse k d) = ''dblclick'' \<longleftrightarrow> k = DblClick"
  "ev_type (Mouse k d) = ''click'' \<longleftrightarrow> k = Click"
  "ev_type (Mouse k d) \<noteq> ''mousemove''"
  "ev_type (Mouse k d) \<noteq> ''wheel''"
  "ev_type (Mouse k d) \<noteq> ''keydown''"
  "ev_type (Mouse k d) \<noteq> ''keyup''"
  "ev_type (Mouse k d) \<noteq> ''step''"
  by (cases k; simp)+

lemma ev_type_Keyboard [simp]:
  "ev_type (Keyboard kk key m) = ''keydown'' \<longleftrightarrow> kk = KeyDown"
  "ev_type (Keyboard kk key m) = ''keyup'' \<longleftrightarrow> kk = KeyUp"
  "ev_type (Keyboard kk key m) \<noteq> ''mousedown''"
  "ev_type (Keyboard kk key m) \<noteq> ''mouseup''"
  "ev_type (Keyboard kk key m) \<noteq> ''dblclick''"
  "ev_type (Keyboard kk key m) \<noteq> ''click''"
  "ev_type (Keyboard kk key m) \<noteq> ''mousemove''"
  "ev_type (Keyboard kk key m) \<noteq> ''wheel''"
  "ev_type (Keyboard kk key m) \<noteq> ''step''"
  by (cases kk; simp)+

lemma consume_merge_Nil: "consume_merge [] None None ev = [ev]"
  by (simp add: consume_merge_def)

lemma consume_merge_shape:
  "merge_shape evs ev (consume_merge evs (type_from_end evs (Suc 0)) (type_from_end evs 2) ev)"
proof (cases evs rule: rev_cases)
  case Nil
  then show ?thesis by (simp add: consume_merge_Nil merge_shape_def)
next
  case (snoc es l)
  show ?thesis
  proof (cases ev)
    case (Mouse k d)
    show ?thesis
    proof (cases "k = DblClick \<and> ev_type l = ''click'' \<and> es \<noteq> [] \<and> ev_type (last es) = ''click''")
      case True
      then obtain es' a where "es = es' @ [a]" by (metis append_butlast_last_id)
      with True Mouse snoc show ?thesis
        by (simp add: consume_merge_def merge_shape_def type_from_end_snoc_2 butlast_append)
    next
      case False
      with Mouse snoc show ?thesis
        by (auto simp add: consume_merge_def merge_shape_def type_from_end_snoc_2)
    qed
  next
    case (MouseMove d st)
    with snoc show ?thesis by (simp add: consume_merge_def merge_shape_def)
  next
    case (Wheel d dx dy)
    with snoc show ?thesis
      by (cases l) (simp_all add: consume_merge_def merge_shape_def)
  next
    case (Keyboard kk key m)
    with snoc show ?thesis
      by (cases l) (simp_all add: consume_merge_def merge_shape_def)
  next
    case (Screenshot h b n opts)
    with snoc show ?thesis by (simp add: consume_merge_def merge_shape_def)
  next
    case (Step w n)
    with snoc show ?thesis by (simp add: consume_merge_def merge_shape_def)
  next
    case (Comment v)
    with snoc show ?thesis by (simp add: consume_merge_def merge_shape_def)
  next
    case (Navigation u)
    with snoc show ?thesis by (simp add: consume_merge_def merge_shape_def)
  qed
qed


lemma merge_shape_steps:
  assumes "merge_shape evs ev res"
  shows "filter (\<lambda>e. ev_type e = ''step'') res = filter (\<lambda>e. ev_type e = ''step'') (evs @ [ev])"
  using assms unfolding merge_shape_def by auto


lemma no_adjacent_moves_snoc:
  "no_adjacent_moves (es @ [e]) \<longleftrightarrow>
     no_adjacent_moves es \<and> (es = [] \<or> \<not> (ev_type (last es) = ''mousemove'' \<and> ev_type e = ''mousemove''))"
  by (induction es rule: no_adjacent_moves.induct) auto

lemma merge_shape_moves:
  assumes "merge_shape evs ev res" "no_adjacent_moves evs"
  shows "no_adjacent_moves res"
proof -
  have two: "\<And>es a b. no_adjacent_moves (es @ [a, b]) \<Longrightarrow> no_adjacent_moves (es @ [a])"
  proof -
    fix es a b assume "no_adjacent_moves (es @ [a, b])"
    then have "no_adjacent_moves ((es @ [a]) @ [b])" by simp
    then show "no_adjacent_moves (es @ [a])" by (simp only: no_adjacent_moves_snoc)
  qed
  from assms show ?thesis
    unfolding merge_shape_def
    by (auto simp add: no_adjacent_moves_snoc dest!: two)
qed


lemma name_or_step_nonempty [simp]: "name_or_step n \<noteq> []"
  by (cases n) (simp_all add: name_or_step_def)

lemma open_steps_append:
  "open_steps (es @ es') st = (case open_steps es st of None \<Rightarrow> None | Some st' \<Rightarrow> open_steps es' st')"
  by (induction es st rule: open_steps.induct) simp_all

lemma open_steps_filter:
  "open_steps es st = open_steps (filter (\<lambda>e. ev_type e = ''step'') es) st"
  by (induction es st rule: open_steps.induct) simp_all

lemma open_steps_merge:
  "open_steps (consume_merge evs (type_from_end evs (Suc 0)) (type_from_end evs 2) ev) st
     = open_steps (evs @ [ev]) st"
proof -
  let ?m = "consume_merge evs (type_from_end evs (Suc 0)) (type_from_end evs 2) ev"
  have "open_steps ?m st = open_steps (filter (\<lambda>e. ev_type e = ''step'') ?m) st"
    by (rule open_steps_filter)
  also have "\<dots> = open_steps (filter (\<lambda>e. ev_type e = ''step'') (evs @ [ev])) st"
    by (simp only: merge_shape_steps [OF consume_merge_shape])
  also have "\<dots> = open_steps (evs @ [ev]) st"
    by (rule open_steps_filter [symmetric])
  finally show ?thesis .
qed

lemma consume_button_log:
  "consume_button s ev = Some s1 \<Longrightarrow> events s1 = events s \<and> steps s1 = steps s"
  by (auto simp add: consume_button_def split: if_splits)

lemma consume_steps_inv:
  assumes "steps_inv s"
  shows "steps_inv (snd (consume s ev))"
proof (cases "consume_button s ev")
  case None
  with assms show ?thesis by (simp add: consume_def)
next
  case (Some s1)
  then have s1: "events s1 = events s" "steps s1 = steps s"
    by (simp_all add: consume_button_log)
  show ?thesis
  proof (cases ev)
    case (Step w n)
    show ?thesis
    proof (cases w)
      case Start
      with Step Some s1 assms show ?thesis
        by (simp add: consume_def consume_steps_def steps_inv_def open_steps_merge open_steps_append)
    next
      case End
      show ?thesis
      proof (cases "steps s = []")
        case True
        with End Step Some s1 assms show ?thesis
          by (simp add: consume_def consume_steps_def steps_inv_def pop_def truthy_def)
      next
        case False
        then have "last (steps s) \<in> set (steps s)" by simp
        with assms have "last (steps s) \<noteq> []" by (simp add: steps_inv_def)
        moreover have "\<forall>n \<in> set (butlast (steps s)). n \<noteq> []"
          using assms by (auto simp add: steps_inv_def dest: in_set_butlastD)
        ultimately show ?thesis
          using False End Step Some s1 assms
          by (simp add: consume_def consume_steps_def steps_inv_def pop_def truthy_def
              open_steps_merge open_steps_append)
      qed
    qed
  qed (use Some s1 assms in \<open>simp_all add: consume_def consume_steps_def steps_inv_def
        open_steps_merge open_steps_append\<close>)
qed

lemma consume_moves_inv:
  assumes "no_adjacent_moves (events s)"
  shows "no_adjacent_moves (events (snd (consume s ev)))"
proof (cases "consume_button s ev")
  case None
  with assms show ?thesis by (simp add: consume_def)
next
  case (Some s1)
  then have s1: "events s1 = events s"
    by (simp add: consume_button_log)
  obtain b s2 where c: "consume_steps s1 ev = (b, s2)" by (cases "consume_steps s1 ev")
  then have s2: "events s2 = events s1"
    by (auto simp add: consume_steps_def pop_def split: event.splits which.splits if_splits)
  show ?thesis
  proof (cases b)
    case True
    have "no_adjacent_moves
            (consume_merge (events s) (type_from_end (events s) (Suc 0)) (type_from_end (events s) 2) ev)"
      using consume_merge_shape assms by (rule merge_shape_moves)
    with True Some c s1 s2 show ?thesis by (simp add: consume_def)
  next
    case False
    with Some c s1 s2 assms show ?thesis by (simp add: consume_def)
  qed
qed

lemma exec_log:
  "events (exec s ev) = events (snd (consume s ev))"
  "steps (exec s ev) = steps (snd (consume s ev))"
  by (cases "consume s ev"; simp add: exec_def split: bool.splits)+

lemma reachable_invariant:
  assumes reach: "reachable s"
    and init: "\<And>t c. P (new_codegen t c)"
    and cons: "\<And>s ev. P s \<Longrightarrow> P (snd (consume s ev))"
    and frame: "\<And>s s'. P s \<Longrightarrow> events s' = events s \<Longrightarrow> steps s' = steps s \<Longrightarrow> P s'"
  shows "P s"
proof -
  have ex: "P (exec s ev)" if "P s" for s ev
    using cons [OF that, of ev] by (rule frame) (simp_all add: exec_log)
  have em: "P (emit s ev)" if "P s" for s ev
    using that ex by (simp add: emit_def)
  from reach show ?thesis
  proof induction
    case (r_new t c)
    show ?case by (rule init)
  next
    case (r_event s e)
    then show ?case by (simp add: emitCodegenEvent_def em)
  next
    case (r_navigated s u)
    then show ?case by (simp add: framenavigated_def em)
  next
    case (r_start s)
    from r_start.IH show ?case by (rule frame) (simp_all add: startRecording_def)
  next
    case (r_stop s)
    from r_stop.IH show ?case by (rule frame) (simp_all add: stopRecording_def)
  next
    case (r_step s n)
    then show ?case by (simp add: step_def em split: option.splits)
  next
    case (r_endStep s)
    then show ?case by (simp add: endStep_def em split: option.splits)
  next
    case (r_screenshot s n a opts area shot)
    have "P (s\<lparr>counter := counter s + 1\<rparr>)"
      using r_screenshot.IH by (rule frame) simp_all
    with r_screenshot.IH show ?case
      by (simp add: captureScreenshot_def Let_def em split: option.splits)
  next
    case (r_comment s v)
    then show ?case by (simp add: comment_def em split: option.splits)
  next
    case (r_fire s json)
    from r_fire.IH show ?case by (rule frame) (simp_all add: debounce_fire_def write_file_def)
  qed
qed

lemma reachable_steps_inv: "reachable s \<Longrightarrow> steps_inv s"
proof (erule reachable_invariant)
  show "steps_inv (new_codegen t c)" for t c
    by (simp add: steps_inv_def new_codegen_def)
next
  show "steps_inv (snd (consume s ev))" if "steps_inv s" for s ev
    using that by (rule consume_steps_inv)
next
  show "steps_inv s'" if "steps_inv s" "events s' = events s" "steps s' = steps s" for s s'
    using that by (simp add: steps_inv_def)
qed

lemma reachable_moves_inv: "reachable s \<Longrightarrow> no_adjacent_moves (events s)"
proof (erule reachable_invariant)
  show "no_adjacent_moves (events (new_codegen t c))" for t c
    by (simp add: new_codegen_def)
qed (simp_all add: consume_moves_inv)

lemma ev_type_click: "ev_type e = ''click'' \<longleftrightarrow> (\<exists>d. e = Mouse Click d)"
  by (cases e rule: ev_type.cases) simp_all

lemma type_from_end_two [simp]:
  "type_from_end (es @ [a, b]) (Suc 0) = Some (ev_type b)"
  "type_from_end (es @ [a, b]) 2 = Some (ev_type a)"
  by (simp_all add: type_from_end_def nth_append)

lemma two_clicks_tail:
  "type_from_end evs (Suc 0) = Some ''click'' \<and> type_from_end evs 2 = Some ''click'' \<longleftrightarrow>
     (\<exists>es a b. evs = es @ [Mouse Click a, Mouse Click b])"
proof (cases evs rule: rev_cases)
  case Nil
  then show ?thesis by simp
next
  case (snoc es1 l)
  show ?thesis
  proof (cases es1 rule: rev_cases)
    case Nil
    with snoc show ?thesis by (simp add: type_from_end_def)
  next
    case (snoc es2 l2)
    with \<open>evs = es1 @ [l]\<close> show ?thesis
      by (auto simp add: type_from_end_snoc_2 ev_type_click)
  qed
qed

lemma reachable_started: "reachable started"
  unfolding started_def by (intro r_start r_new)










lemma consume_move_down:
  assumes "down s"
  shows "consume s (MouseMove d st) =
     (True, s\<lparr>events :=
        (if type_from_end (events s) (Suc 0) = Some ''mousemove''
         then butlast (events s) @ [MouseMove d (Some (steps_of (last (events s)) + 1))]
         else events s @ [MouseMove d st])\<rparr>)"
  using assms by (simp add: consume_defs Let_def)

lemma exec_all_moves:
  assumes "down s" "events s = es @ [MouseMove d0 st0]"
  shows "events (exec_all s (map (\<lambda>d. MouseMove d None) ds)) =
     es @ [if ds = [] then MouseMove d0 st0
           else MouseMove (last ds) (Some (steps_of (MouseMove d0 st0) + length ds))]"
  using assms
proof (induction ds arbitrary: s d0 st0)
  case Nil
  then show ?case by simp
next
  case (Cons d ds)
  let ?k = "steps_of (MouseMove d0 st0) + 1"
  let ?s' = "exec s (MouseMove d None)"
  from Cons.prems have s': "down ?s'" "events ?s' = es @ [MouseMove d (Some ?k)]"
    by (simp_all add: exec_def consume_move_down)
  from Cons.IH [OF s'] show ?case by simp
qed

section \<open>Recorded scenarios\<close>

text \<open>
  The labels are those of the recorded test output; the drag is rendered as a move to
  the start, a button down, one move with the remaining steps, and a button up.
\<close>

lemma getCodegenKey_recorded:
  "getCodegenKey ''Control'' \<lparr>shiftKey = True, ctrlKey = True, altKey = False, metaKey = False\<rparr>
     = ''Ctrl+Shift+Control'' \<and>
   getCodegenKey ''Shift'' \<lparr>shiftKey = True, ctrlKey = False, altKey = False, metaKey = False\<rparr>
     = ''Shift'' \<and>
   getCodegenKey ''1'' \<lparr>shiftKey = False, ctrlKey = True, altKey = True, metaKey = False\<rparr>
     = ''Alt+Ctrl+1''"
  by (simp add: getCodegenKey_def)

lemma drag_scenario:
  "events (exec_all started [Mouse MouseDown (at_point 10 10), MouseMove (at_point 20 20) None,
       MouseMove (at_point 30 30) None, Mouse MouseUp (at_point 30 30)])
     = [Mouse MouseDown (at_point 10 10), MouseMove (at_point 30 30) (Some 1), Mouse MouseUp (at_point 30 30)] \<and>
   parse (\<lambda>opts. []) (exec_all started [Mouse MouseDown (at_point 10 10), MouseMove (at_point 20 20) None,
       MouseMove (at_point 30 30) None, Mouse MouseUp (at_point 30 30)])
     = [''await page.mouse.move(10, 10);'', ''await page.mouse.down();'',
        ''await page.mouse.move(30, 30, { steps: 1 });'', ''await page.mouse.up();'']"
  by (simp add: api_defs consume_defs type_from_end_def parse_def parse_data_def at_point_def
      show_int_def show_nat.simps digit_def)

section \<open>Wheel accumulation\<close>



section \<open>Click collapse\<close>

text \<open>
  C1, as the code has it. When the last entry of the log is a mouse down, consuming a
  mouse up removes that entry and appends a single click entry; the click carries the
  coordinates, locator and modifiers of the mouse up event, and the button flag is
  cleared. No mouse down followed by a mouse up is left in the log.
\<close>

theorem mouseup_after_mousedown_is_click:
  assumes "events s = es @ [Mouse MouseDown d]"
  shows "consume s (Mouse MouseUp u) = (True, s\<lparr>down := False, events := es @ [Mouse Click u]\<rparr>)"
  using assms by (simp add: consume_defs)

theorem mouseup_after_mousedown_is_click_witness:
  "events (emitCodegenEvent started (Mouse MouseDown (at_point 5 5))) = [] @ [Mouse MouseDown (at_point 5 5)] \<and>
   events (snd (consume (emitCodegenEvent started (Mouse MouseDown (at_point 5 5))) (Mouse MouseUp (at_point 5 5))))
     = [Mouse Click (at_point 5 5)]"
proof -
  have h: "events (emitCodegenEvent started (Mouse MouseDown (at_point 5 5))) = [] @ [Mouse MouseDown (at_point 5 5)]"
    by (simp add: api_defs consume_defs)
  show ?thesis
    using h mouseup_after_mousedown_is_click [OF h, of "at_point 5 5"] by simp
qed

text \<open>
  The click does not take the coordinates of the mouse down: a mouse down at \<open>(5, 5)\<close>
  followed by a mouse up at \<open>(7, 9)\<close> is logged as a click at \<open>(7, 9)\<close>.
\<close>

theorem click_has_down_coordinates_counterexample:
  "events (emitCodegenEvent started (Mouse MouseDown (at_point 5 5))) = [Mouse MouseDown (at_point 5 5)] \<and>
   events (snd (consume (emitCodegenEvent started (Mouse MouseDown (at_point 5 5))) (Mouse MouseUp (at_point 7 9))))
     = [Mouse Click (at_point 7 9)] \<and>
   ev_x (at_point 7 9) \<noteq> ev_x (at_point 5 5) \<and> ev_y (at_point 7 9) \<noteq> ev_y (at_point 5 5)"
  by (simp add: api_defs consume_defs at_point_def type_from_end_def)

section \<open>The recording gate\<close>




section \<open>Stopping and the last write\<close>




section \<open>Double click collapse\<close>

text \<open>
  C7. Consuming a double click collapses the log exactly when its last two entries are
  both clicks: those two entries are removed and the one double click entry is
  appended. In every other log, for instance with a comment between the two clicks,
  nothing is removed and the double click is appended.
\<close>

theorem dblclick_collapses_two_clicks:
  "(events s = es @ [Mouse Click a, Mouse Click b] \<longrightarrow>
      consume s (Mouse DblClick d) = (True, s\<lparr>events := es @ [Mouse DblClick d]\<rparr>)) \<and>
   ((\<nexists>es a b. events s = es @ [Mouse Click a, Mouse Click b]) \<longrightarrow>
      consume s (Mouse DblClick d) = (True, s\<lparr>events := events s @ [Mouse DblClick d]\<rparr>)) \<and>
   (events s = es @ [Mouse Click a, Comment v, Mouse Click b] \<longrightarrow>
      consume s (Mouse DblClick d) = (True, s\<lparr>events := events s @ [Mouse DblClick d]\<rparr>))"
proof -
  have c: "consume s (Mouse DblClick d) =
     (True, s\<lparr>events :=
        (if type_from_end (events s) (Suc 0) = Some ''click'' \<and> type_from_end (events s) 2 = Some ''click''
         then butlast (butlast (events s)) @ [Mouse DblClick d]
         else events s @ [Mouse DblClick d])\<rparr>)"
    by (simp add: consume_defs Let_def)
  have 1: "consume s (Mouse DblClick d) = (True, s\<lparr>events := es @ [Mouse DblClick d]\<rparr>)"
    if "events s = es @ [Mouse Click a, Mouse Click b]"
  proof -
    from that have "type_from_end (events s) (Suc 0) = Some ''click'' \<and> type_from_end (events s) 2 = Some ''click''"
      by (subst two_clicks_tail) blast
    with that show ?thesis by (simp add: c butlast_append)
  qed
  have 2: "consume s (Mouse DblClick d) = (True, s\<lparr>events := events s @ [Mouse DblClick d]\<rparr>)"
    if "\<nexists>es a b. events s = es @ [Mouse Click a, Mouse Click b]"
  proof -
    from that have "\<not> (type_from_end (events s) (Suc 0) = Some ''click'' \<and> type_from_end (events s) 2 = Some ''click'')"
      by (subst two_clicks_tail) blast
    then show ?thesis unfolding c by (simp only: if_False)
  qed
  have 3: "\<nexists>es' a' b'. events s = es' @ [Mouse Click a', Mouse Click b']"
    if "events s = es @ [Mouse Click a, Comment v, Mouse Click b]"
  proof
    assume "\<exists>es' a' b'. events s = es' @ [Mouse Click a', Mouse Click b']"
    then obtain es' a' b' where "events s = es' @ [Mouse Click a', Mouse Click b']" by blast
    with that have "(es @ [Mouse Click a, Comment v]) @ [Mouse Click b] = (es' @ [Mouse Click a']) @ [Mouse Click b']"
      by simp
    then have "es @ [Mouse Click a, Comment v] = es' @ [Mouse Click a']"
      by (simp only: append1_eq_conv)
    then have "(es @ [Mouse Click a]) @ [Comment v] = es' @ [Mouse Click a']" by simp
    then show False by (simp only: append1_eq_conv) simp
  qed
  from 1 2 3 show ?thesis by blast
qed

theorem dblclick_collapses_two_clicks_witness:
  "events (exec_all started [Mouse MouseDown (at_point 1 2), Mouse MouseUp (at_point 1 2),
      Mouse MouseDown (at_point 1 2), Mouse MouseUp (at_point 1 2)])
     = [] @ [Mouse Click (at_point 1 2), Mouse Click (at_point 1 2)] \<and>
   events (snd (consume (exec_all started [Mouse MouseDown (at_point 1 2), Mouse MouseUp (at_point 1 2),
      Mouse MouseDown (at_point 1 2), Mouse MouseUp (at_point 1 2)]) (Mouse DblClick (at_point 1 2))))
     = [Mouse DblClick (at_point 1 2)] \<and>
   events (exec_all started [Mouse MouseDown (at_point 1 2), Mouse MouseUp (at_point 1 2), Comment ''x'',
      Mouse MouseDown (at_point 1 2), Mouse MouseUp (at_point 1 2)])
     = [] @ [Mouse Click (at_point 1 2), Comment ''x'', Mouse Click (at_point 1 2)] \<and>
   events (snd (consume (exec_all started [Mouse MouseDown (at_point 1 2), Mouse MouseUp (at_point 1 2),
      Comment ''x'', Mouse MouseDown (at_point 1 2), Mouse MouseUp (at_point 1 2)]) (Mouse DblClick (at_point 1 2))))
     = [Mouse Click (at_point 1 2), Comment ''x'', Mouse Click (at_point 1 2), Mouse DblClick (at_point 1 2)]"
proof -
  let ?p = "at_point 1 2"
  let ?s1 = "exec_all started [Mouse MouseDown ?p, Mouse MouseUp ?p, Mouse MouseDown ?p, Mouse MouseUp ?p]"
  let ?s2 = "exec_all started [Mouse MouseDown ?p, Mouse MouseUp ?p, Comment ''x'',
      Mouse MouseDown ?p, Mouse MouseUp ?p]"
  have h1: "events ?s1 = [] @ [Mouse Click ?p, Mouse Click ?p]"
    by (simp add: api_defs consume_defs type_from_end_def)
  have h2: "events ?s2 = [] @ [Mouse Click ?p, Comment ''x'', Mouse Click ?p]"
    by (simp add: api_defs consume_defs type_from_end_def)
  show ?thesis
    using h1 h2 dblclick_collapses_two_clicks [of ?s1 "[]" ?p ?p ?p "''x''"]
      dblclick_collapses_two_clicks [of ?s2 "[]" ?p ?p ?p "''x''"]
    by simp
qed

section \<open>Step end\<close>

text \<open>
  C8. With an empty step stack a step end is dropped: \<^verbatim>\<open>consume\<close> returns false, the
  recorder (log, step stack, button flag) is unchanged and no write is requested. With
  a non-empty stack, in a state the recorder can reach, the last name is popped, a
  step end entry is appended to the log and a write is requested.
\<close>

theorem step_end_pops_or_is_dropped:
  "(steps s = [] \<longrightarrow> consume s (Step End n) = (False, s) \<and> exec s (Step End n) = s) \<and>
   (reachable s \<and> steps s \<noteq> [] \<longrightarrow>
      consume s (Step End n) =
        (True, s\<lparr>steps := butlast (steps s), events := events s @ [Step End n]\<rparr>) \<and>
      write_pending (exec s (Step End n)))"
proof -
  have 1: "consume s (Step End n) = (False, s) \<and> exec s (Step End n) = s" if "steps s = []"
  proof -
    from that have "s\<lparr>steps := []\<rparr> = s" by simp
    with that show ?thesis
      by (simp add: exec_def consume_defs pop_def truthy_def)
  qed
  have 2: "consume s (Step End n) =
        (True, s\<lparr>steps := butlast (steps s), events := events s @ [Step End n]\<rparr>) \<and>
      write_pending (exec s (Step End n))" if "reachable s" "steps s \<noteq> []"
  proof -
    from that(1) have "steps_inv s" by (rule reachable_steps_inv)
    moreover from that(2) have "last (steps s) \<in> set (steps s)" by simp
    ultimately have "last (steps s) \<noteq> []" by (simp add: steps_inv_def)
    with that(2) show ?thesis
      by (simp add: exec_def consume_defs pop_def truthy_def)
  qed
  from 1 2 show ?thesis by blast
qed

theorem step_end_pops_or_is_dropped_witness:
  "steps started = [] \<and> exec started (Step End None) = started \<and>
   reachable (snd (step started (Some ''a''))) \<and> steps (snd (step started (Some ''a''))) = [''a''] \<and>
   events (snd (consume (snd (step started (Some ''a''))) (Step End None)))
     = [Step Start (Some ''a''), Step End None] \<and>
   steps (snd (consume (snd (step started (Some ''a''))) (Step End None))) = []"
proof -
  let ?s = "snd (step started (Some ''a''))"
  have r: "reachable ?s" using reachable_started by (rule r_step)
  have e: "steps started = []" "steps ?s = [''a'']" "events ?s = [Step Start (Some ''a'')]"
    by (simp_all add: step_def assertRecording_def api_defs consume_defs name_or_step_def truthy_def)
  show ?thesis
    using r e step_end_pops_or_is_dropped [of started None] step_end_pops_or_is_dropped [of ?s None]
    by simp
qed

section \<open>Calls outside a recording\<close>



section \<open>The button flag filters mouse moves only\<close>

text \<open>
  C10. A wheel event is accepted whatever the button flag is: it is appended to the log
  or merged into a wheel entry at its tail, and when it arrives through
  \<^verbatim>\<open>emitCodegenEvent\<close> while recording a write is requested. A mouse move with the button
  up is dropped. For every event other than a mouse move, what \<^verbatim>\<open>consume\<close> returns and
  what it does to the log and the step stack do not depend on the button flag.
\<close>

theorem wheel_ignores_button_flag:
  "fst (consume s (Wheel d dx dy)) \<and>
   (events (snd (consume s (Wheel d dx dy))) = events s @ [Wheel d dx dy] \<or>
    (\<exists>es d0 dx0 dy0. events s = es @ [Wheel d0 dx0 dy0] \<and> ev_x d0 = ev_x d \<and> ev_y d0 = ev_y d \<and>
       events (snd (consume s (Wheel d dx dy))) = es @ [Wheel d (dx0 + dx) (dy0 + dy)])) \<and>
   (recording s \<longrightarrow>
      emitCodegenEvent s (Wheel d dx dy) = (snd (consume s (Wheel d dx dy)))\<lparr>write_pending := True\<rparr>) \<and>
   (\<not> down s \<longrightarrow> consume s (MouseMove m st) = (False, s)) \<and>
   (ev_type ev \<noteq> ''mousemove'' \<longrightarrow>
      fst (consume (s\<lparr>down := b\<rparr>) ev) = fst (consume s ev) \<and>
      events (snd (consume (s\<lparr>down := b\<rparr>) ev)) = events (snd (consume s ev)) \<and>
      steps (snd (consume (s\<lparr>down := b\<rparr>) ev)) = steps (snd (consume s ev)))"
proof -
  have acc: "fst (consume s (Wheel d dx dy))"
    by (simp add: consume_defs)
  have log: "events (snd (consume s (Wheel d dx dy))) = events s @ [Wheel d dx dy] \<or>
    (\<exists>es d0 dx0 dy0. events s = es @ [Wheel d0 dx0 dy0] \<and> ev_x d0 = ev_x d \<and> ev_y d0 = ev_y d \<and>
       events (snd (consume s (Wheel d dx dy))) = es @ [Wheel d (dx0 + dx) (dy0 + dy)])"
  proof (cases "events s" rule: rev_cases)
    case Nil
    then show ?thesis by (simp add: consume_defs)
  next
    case (snoc es l)
    then show ?thesis by (cases l) (simp_all add: consume_defs)
  qed
  have em: "emitCodegenEvent s (Wheel d dx dy) = (snd (consume s (Wheel d dx dy)))\<lparr>write_pending := True\<rparr>"
    if "recording s"
    using that acc by (cases "consume s (Wheel d dx dy)") (simp add: api_defs)
  have mv: "consume s (MouseMove m st) = (False, s)" if "\<not> down s"
    using that by (simp add: consume_defs)
  have ind: "fst (consume (s\<lparr>down := b\<rparr>) ev) = fst (consume s ev) \<and>
      events (snd (consume (s\<lparr>down := b\<rparr>) ev)) = events (snd (consume s ev)) \<and>
      steps (snd (consume (s\<lparr>down := b\<rparr>) ev)) = steps (snd (consume s ev))"
    if "ev_type ev \<noteq> ''mousemove''"
    using that
    by (cases ev) (auto simp add: consume_def consume_button_def consume_steps_def pop_def
        split: which.splits bool.splits)
  from acc log em mv ind show ?thesis by blast
qed

theorem wheel_ignores_button_flag_witness:
  "recording started \<and> \<not> down started \<and>
   events (emitCodegenEvent started (Wheel (at_point 3 4) 0 100)) = [Wheel (at_point 3 4) 0 100] \<and>
   emitCodegenEvent started (MouseMove (at_point 3 4) None) = started"
proof -
  have h: "recording started" "\<not> down started" "events started = []"
    by (simp_all add: api_defs)
  have t: "ev_type (Wheel (at_point 3 4) 0 100) \<noteq> ''mousemove''" by simp
  show ?thesis
    using h t wheel_ignores_button_flag [of started "at_point 3 4" 0 100 "at_point 3 4" None
        "Wheel (at_point 3 4) 0 100" True]
    by (auto simp add: emitCodegenEvent_def emit_def exec_def EVENTS_TO_CONSUME_def)
qed

section \<open>Step balance\<close>



section \<open>Move coalescing\<close>

text \<open>
  C5. With the button down and a log that does not end in a mouse move entry, \<open>N \<ge> 1\<close>
  mouse moves in a row add one mouse move entry to the log, with the data of the last
  move and \<open>N - 1\<close> steps. (Moves that arrive when the log already ends in a mouse move
  entry are merged into that entry, one step each.) No two neighbouring entries of the
  log are mouse moves: \<^verbatim>\<open>consume\<close> preserves this, and it holds in every state the
  recorder can reach.
\<close>

theorem moves_coalesce:
  "(down s \<and> type_from_end (events s) 1 \<noteq> Some ''mousemove'' \<and> ds \<noteq> [] \<longrightarrow>
      events (exec_all s (map (\<lambda>d. MouseMove d None) ds)) =
        events s @ [MouseMove (last ds) (if length ds = 1 then None else Some (length ds - 1))] \<and>
      steps_of (MouseMove (last ds) (if length ds = 1 then None else Some (length ds - 1))) = length ds - 1) \<and>
   (down s \<and> events s = es @ [MouseMove d0 st0] \<and> ds \<noteq> [] \<longrightarrow>
      events (exec_all s (map (\<lambda>d. MouseMove d None) ds)) =
        es @ [MouseMove (last ds) (Some (steps_of (MouseMove d0 st0) + length ds))]) \<and>
   (no_adjacent_moves (events s) \<longrightarrow> no_adjacent_moves (events (snd (consume s ev)))) \<and>
   (reachable s \<longrightarrow> no_adjacent_moves (events s))"
proof -
  have run: "events (exec_all s (map (\<lambda>d. MouseMove d None) ds)) =
        events s @ [MouseMove (last ds) (if length ds = 1 then None else Some (length ds - 1))]"
    if "down s" "type_from_end (events s) 1 \<noteq> Some ''mousemove''" "ds \<noteq> []"
  proof -
    from that(3) obtain d ds' where ds: "ds = d # ds'" by (cases ds) auto
    let ?s' = "exec s (MouseMove d None)"
    from that(1,2) have s': "down ?s'" "events ?s' = events s @ [MouseMove d None]"
      by (simp_all add: exec_def consume_move_down)
    from exec_all_moves [OF s', of ds'] ds show ?thesis by simp
  qed
  have st: "steps_of (MouseMove (last ds) (if length ds = 1 then None else Some (length ds - 1))) = length ds - 1"
    by simp
  have merged: "events (exec_all s (map (\<lambda>d. MouseMove d None) ds)) =
        es @ [MouseMove (last ds) (Some (steps_of (MouseMove d0 st0) + length ds))]"
    if "down s" "events s = es @ [MouseMove d0 st0]" "ds \<noteq> []"
    using exec_all_moves [OF that(1,2), of ds] that(3) by simp
  from run st merged consume_moves_inv reachable_moves_inv show ?thesis by blast
qed

theorem moves_coalesce_witness:
  "reachable (emitCodegenEvent started (Mouse MouseDown (at_point 10 10))) \<and>
   down (emitCodegenEvent started (Mouse MouseDown (at_point 10 10))) \<and>
   events (exec_all (emitCodegenEvent started (Mouse MouseDown (at_point 10 10)))
      (map (\<lambda>d. MouseMove d None) [at_point 20 20, at_point 30 30]))
     = [Mouse MouseDown (at_point 10 10), MouseMove (at_point 30 30) (Some 1)] \<and>
   no_adjacent_moves [Mouse MouseDown (at_point 10 10), MouseMove (at_point 30 30) (Some 1)]"
proof -
  let ?s = "emitCodegenEvent started (Mouse MouseDown (at_point 10 10))"
  have r: "reachable ?s"
    by (intro r_event reachable_started)
  have e: "down ?s" "events ?s = [Mouse MouseDown (at_point 10 10)]"
    by (simp_all add: api_defs consume_defs)
  have t: "type_from_end (events ?s) 1 \<noteq> Some ''mousemove''"
    by (simp add: e type_from_end_def)
  show ?thesis
    using r e t moves_coalesce [of ?s "[at_point 20 20, at_point 30 30]" "[]" "at_point 0 0" None
        "Comment []"]
    by simp
qed

end
